theory Spec2Isabelle
  imports Complex_Main
begin

section \<open>The arithmetic-expression pipeline of task\_2.py\<close>

text \<open>
  The development embeds the lexer, the recursive-descent parser and the tree-walking
  interpreter of \<^verbatim>\<open>src/task_1/sorted-data/py/task_2.py\<close>.

  Conventions of the embedding.
  \<^item> A Python \<^verbatim>\<open>str\<close> is a \<^typ>\<open>string\<close>; the character \<open>c\<close> stands for the code
    point \<open>of_char c\<close>, so the model covers source texts whose code points are below 256.
  \<^item> A raised exception is the \<open>Inl\<close> of a sum. The lexer's methods also return the
    lexer as it is at the raise, since Python keeps the mutation.
  \<^item> Python's \<^verbatim>\<open>None\<close> is \<open>NoneP\<close> as a token payload, \<open>NoneNode\<close> where a tree
    is expected and \<open>NoneV\<close> as a value.
  \<^item> Python's \<^verbatim>\<open>float\<close> is a type parameter \<open>'f\<close>: its arithmetic is handed to the
    interpreter as a record of operations, so no theorem depends on how floats round.
  \<^item> \<^verbatim>\<open>int(s)\<close> raises \<^verbatim>\<open>ValueError\<close> on more than 4300 digits, the limit of
    CPython from version 3.11 on as it is set by default.
\<close>

subsection \<open>Exceptions\<close>

datatype error =
    LexicalError char        \<comment> \<open>\<^verbatim>\<open>LexicalError\<close>, with the character of its message\<close>
  | ParsingError             \<comment> \<open>\<^verbatim>\<open>ParsingError\<close>\<close>
  | ZeroDivisionError        \<comment> \<open>the builtin, raised by \<^verbatim>\<open>visit_BinOp\<close>\<close>
  | ValueError               \<comment> \<open>the builtin, raised by \<^verbatim>\<open>int(result)\<close>\<close>
  | OverflowError            \<comment> \<open>the builtin, raised by float conversion and true division\<close>
  | TypeError                \<comment> \<open>the builtin, raised by arithmetic on a non-number\<close>
  | GenericException string  \<comment> \<open>\<^verbatim>\<open>Exception\<close> of \<^verbatim>\<open>generic_visit\<close>, with the type name of its message\<close>

subsection \<open>Tokens\<close>

datatype tok_type = INTEGER | PLUS | MINUS | MUL | DIV | LPAREN | RPAREN | EOF

datatype payload = IntP int | StrP string | NoneP

datatype token = Token (ttype: tok_type) (tvalue: payload)

subsection \<open>Character classes and integer literals\<close>

text \<open>\<^verbatim>\<open>str.isspace\<close> and \<^verbatim>\<open>str.isdigit\<close> on one character with a code point below 256.\<close>

definition isspace :: "char \<Rightarrow> bool" where
  "isspace c = (of_char c \<in> {9, 10, 11, 12, 13, 28, 29, 30, 31, 32, 133, 160 :: nat})"

definition is_decimal :: "char \<Rightarrow> bool" where
  "is_decimal c = (48 \<le> (of_char c :: nat) \<and> (of_char c :: nat) \<le> 57)"

text \<open>The superscripts two, three and one (178, 179, 185) are digits for \<^verbatim>\<open>isdigit\<close>.\<close>

definition isdigit :: "char \<Rightarrow> bool" where
  "isdigit c = (is_decimal c \<or> of_char c \<in> {178, 179, 185 :: nat})"

definition digit_val :: "char \<Rightarrow> int" where
  "digit_val c = int (of_char c) - 48"

text \<open>
  \<^verbatim>\<open>int(s)\<close> on a string of \<^verbatim>\<open>isdigit\<close> characters: the empty string, a string
  with a superscript digit and a string of more than 4300 digits, leading zeros counted,
  raise \<^verbatim>\<open>ValueError\<close>.
\<close>

definition max_str_digits :: nat where
  "max_str_digits = 4300"

definition py_int :: "string \<Rightarrow> error + int" where
  "py_int s =
     (if s = [] \<or> \<not> list_all is_decimal s \<or> max_str_digits < length s then Inl ValueError
      else Inr (foldl (\<lambda>acc c. 10 * acc + digit_val c) 0 s))"

subsection \<open>Lexer\<close>

record lexer_state =
  text_str :: string
  pos :: nat
  current_char :: "char option"

definition Lexer :: "string \<Rightarrow> lexer_state" where
  "Lexer s = \<lparr>text_str = s, pos = 0, current_char = (if s \<noteq> [] then Some (s ! 0) else None)\<rparr>"

definition advance :: "lexer_state \<Rightarrow> lexer_state" where
  "advance s =
     s\<lparr>pos := pos s + 1,
       current_char :=
         (if pos s + 1 < length (text_str s) then Some (text_str s ! (pos s + 1)) else None)\<rparr>"

text \<open>The characters the lexer still has to look at, the current one included.\<close>

definition lex_rem :: "lexer_state \<Rightarrow> nat" where
  "lex_rem s = (case current_char s of None \<Rightarrow> 0 | Some c \<Rightarrow> Suc (length (text_str s) - pos s))"

function skip_whitespace :: "lexer_state \<Rightarrow> lexer_state" where
  "skip_whitespace s =
     (case current_char s of
        None \<Rightarrow> s
      | Some c \<Rightarrow> if isspace c then skip_whitespace (advance s) else s)"
  by pat_completeness auto
termination
  by (relation "measure lex_rem") (auto simp: lex_rem_def advance_def)

text \<open>The loop of \<^verbatim>\<open>integer\<close>, with the string read so far.\<close>

function integer_loop :: "lexer_state \<Rightarrow> string \<Rightarrow> string \<times> lexer_state" where
  "integer_loop s result =
     (case current_char s of
        None \<Rightarrow> (result, s)
      | Some c \<Rightarrow> if isdigit c then integer_loop (advance s) (result @ [c]) else (result, s))"
  by pat_completeness auto
termination
  by (relation "measure (\<lambda>(s, r). lex_rem s)") (auto simp: lex_rem_def advance_def)

definition integer :: "lexer_state \<Rightarrow> (error + int) \<times> lexer_state" where
  "integer s = (case integer_loop s [] of (result, s') \<Rightarrow> (py_int result, s'))"

declare skip_whitespace.simps [simp del] integer_loop.simps [simp del]

function get_next_token :: "lexer_state \<Rightarrow> (error + token) \<times> lexer_state" where
  "get_next_token s =
     (case current_char s of
        None \<Rightarrow> (Inr (Token EOF NoneP), s)
      | Some c \<Rightarrow>
          if isspace c then get_next_token (skip_whitespace s)
          else if isdigit c then
            (case integer s of
               (Inl e, s') \<Rightarrow> (Inl e, s')
             | (Inr n, s') \<Rightarrow> (Inr (Token INTEGER (IntP n)), s'))
          else if c = CHR ''+'' then (Inr (Token PLUS (StrP ''+'')), advance s)
          else if c = CHR ''-'' then (Inr (Token MINUS (StrP ''-'')), advance s)
          else if c = CHR ''*'' then (Inr (Token MUL (StrP ''*'')), advance s)
          else if c = CHR ''/'' then (Inr (Token DIV (StrP ''/'')), advance s)
          else if c = CHR ''('' then (Inr (Token LPAREN (StrP ''('')), advance s)
          else if c = CHR '')'' then (Inr (Token RPAREN (StrP '')'')), advance s)
          else (Inl (LexicalError c), s))"
  by pat_completeness auto
termination
proof (relation "measure lex_rem")
  show "wf (measure lex_rem)" by simp
next
  fix s :: lexer_state and c
  assume c: "current_char s = Some c" and sp: "isspace c"
  have adv: "lex_rem (advance t) < lex_rem t" if "current_char t = Some d" for t :: lexer_state and d
    using that by (auto simp: lex_rem_def advance_def)
  have skip: "lex_rem (skip_whitespace t) \<le> lex_rem t" for t
  proof (induction t rule: skip_whitespace.induct)
    case (1 t)
    show ?case
    proof (cases "current_char t")
      case None
      then show ?thesis by (simp add: skip_whitespace.simps [of t])
    next
      case (Some d)
      with "1" adv [OF Some] show ?thesis
        by (simp add: skip_whitespace.simps [of t]) (metis le_trans less_imp_le_nat)
    qed
  qed
  have "skip_whitespace s = skip_whitespace (advance s)"
    using c sp by (simp add: skip_whitespace.simps [of s])
  with skip [of "advance s"] adv [OF c] have "lex_rem (skip_whitespace s) < lex_rem s"
    by simp
  then show "(skip_whitespace s, s) \<in> measure lex_rem" by simp
qed

declare get_next_token.simps [simp del]

subsection \<open>Syntax trees\<close>

text \<open>
  \<^verbatim>\<open>Num(token)\<close> keeps the token (its field \<^verbatim>\<open>value\<close> is the token's),
  \<^verbatim>\<open>BinOp(left, op, right)\<close> keeps the operator's token. \<open>NoneNode\<close> is the
  \<^verbatim>\<open>None\<close> that \<^verbatim>\<open>factor\<close> returns when it falls off its last branch.
\<close>

datatype ast = NoneNode | Num token | BinOp ast token ast

subsection \<open>Parser\<close>

record parser_state =
  lexer :: lexer_state
  current_token :: token

text \<open>\<^verbatim>\<open>Parser.__init__\<close> pulls the first token, so it can raise what the lexer raises.\<close>

definition Parser :: "lexer_state \<Rightarrow> error + parser_state" where
  "Parser lx =
     (case get_next_token lx of
        (Inl e, lx') \<Rightarrow> Inl e
      | (Inr tok, lx') \<Rightarrow> Inr \<lparr>lexer = lx', current_token = tok\<rparr>)"

definition eat :: "tok_type \<Rightarrow> parser_state \<Rightarrow> error + parser_state" where
  "eat token_type p =
     (if ttype (current_token p) = token_type then
        (case get_next_token (lexer p) of
           (Inl e, lx') \<Rightarrow> Inl e
         | (Inr tok, lx') \<Rightarrow> Inr \<lparr>lexer = lx', current_token = tok\<rparr>)
      else Inl ParsingError)"

text \<open>
  The rules of the grammar call each other and loop on the state the callee returns. They
  are defined with a bound on the depth of the calls: \<open>None\<close> says that the bound was
  reached, \<open>Some (Inl e)\<close> that \<open>e\<close> was raised, \<open>Some (Inr (node, p))\<close> that the rule
  returned \<open>node\<close> and left the parser in \<open>p\<close>. The loops of \<^verbatim>\<open>term\<close> and
  \<^verbatim>\<open>expr\<close> carry the node built so far; \<^verbatim>\<open>term\<close> is \<open>term_py\<close>, its own name
  being taken by Isar.
\<close>

type_synonym parse_result = "(error + ast \<times> parser_state) option"

fun factor :: "nat \<Rightarrow> parser_state \<Rightarrow> parse_result"
  and term_loop :: "nat \<Rightarrow> ast \<Rightarrow> parser_state \<Rightarrow> parse_result"
  and term_py :: "nat \<Rightarrow> parser_state \<Rightarrow> parse_result"
  and expr_loop :: "nat \<Rightarrow> ast \<Rightarrow> parser_state \<Rightarrow> parse_result"
  and expr :: "nat \<Rightarrow> parser_state \<Rightarrow> parse_result"
where
  "factor 0 p = None"
| "factor (Suc n) p =
     (let token = current_token p in
      if ttype token = INTEGER then
        (case eat INTEGER p of
           Inl e \<Rightarrow> Some (Inl e)
         | Inr p1 \<Rightarrow> Some (Inr (Num token, p1)))
      else if ttype token = LPAREN then
        (case eat LPAREN p of
           Inl e \<Rightarrow> Some (Inl e)
         | Inr p1 \<Rightarrow>
             (case expr n p1 of
                None \<Rightarrow> None
              | Some (Inl e) \<Rightarrow> Some (Inl e)
              | Some (Inr (node, p2)) \<Rightarrow>
                  (case eat RPAREN p2 of
                     Inl e \<Rightarrow> Some (Inl e)
                   | Inr p3 \<Rightarrow> Some (Inr (node, p3)))))
      else Some (Inr (NoneNode, p)))"
| "term_loop 0 node p = None"
| "term_loop (Suc n) node p =
     (let token = current_token p in
      if ttype token \<in> {MUL, DIV} then
        (case (if ttype token = MUL then eat MUL p
               else if ttype token = DIV then eat DIV p
               else Inr p) of
           Inl e \<Rightarrow> Some (Inl e)
         | Inr p1 \<Rightarrow>
             (case factor n p1 of
                None \<Rightarrow> None
              | Some (Inl e) \<Rightarrow> Some (Inl e)
              | Some (Inr (right, p2)) \<Rightarrow> term_loop n (BinOp node token right) p2))
      else Some (Inr (node, p)))"
| "term_py 0 p = None"
| "term_py (Suc n) p =
     (case factor n p of
        None \<Rightarrow> None
      | Some (Inl e) \<Rightarrow> Some (Inl e)
      | Some (Inr (node, p1)) \<Rightarrow> term_loop n node p1)"
| "expr_loop 0 node p = None"
| "expr_loop (Suc n) node p =
     (let token = current_token p in
      if ttype token \<in> {PLUS, MINUS} then
        (case (if ttype token = PLUS then eat PLUS p
               else if ttype token = MINUS then eat MINUS p
               else Inr p) of
           Inl e \<Rightarrow> Some (Inl e)
         | Inr p1 \<Rightarrow>
             (case term_py n p1 of
                None \<Rightarrow> None
              | Some (Inl e) \<Rightarrow> Some (Inl e)
              | Some (Inr (right, p2)) \<Rightarrow> expr_loop n (BinOp node token right) p2))
      else Some (Inr (node, p)))"
| "expr 0 p = None"
| "expr (Suc n) p =
     (case term_py n p of
        None \<Rightarrow> None
      | Some (Inl e) \<Rightarrow> Some (Inl e)
      | Some (Inr (node, p1)) \<Rightarrow> expr_loop n node p1)"

text \<open>
  What is left to parse: the characters the lexer has not read, and the buffered token
  unless it is \<open>EOF\<close>. Every token that \<^verbatim>\<open>eat\<close> consumes makes it smaller, so a
  depth of three calls for each unit, and three more, is never reached.
\<close>

definition parse_rem :: "parser_state \<Rightarrow> nat" where
  "parse_rem p =
     lex_rem (lexer p) + (if ttype (current_token p) = EOF then 0 else 1)"

definition depth_bound :: "parser_state \<Rightarrow> nat" where
  "depth_bound p = 3 * parse_rem p + 3"

definition parse :: "parser_state \<Rightarrow> (error + ast) option" where
  "parse p =
     (case expr (depth_bound p) p of
        None \<Rightarrow> None
      | Some (Inl e) \<Rightarrow> Some (Inl e)
      | Some (Inr (node, p')) \<Rightarrow>
          if ttype (current_token p') \<noteq> EOF then Some (Inl ParsingError) else Some (Inr node))"

subsection \<open>Values and arithmetic\<close>

text \<open>
  What \<^verbatim>\<open>visit\<close> can return: a token's payload (\<^verbatim>\<open>visit_Num\<close> returns
  \<^verbatim>\<open>node.value\<close>), a float made by a division, or the \<^verbatim>\<open>None\<close> of a
  \<^verbatim>\<open>visit_BinOp\<close> that matches none of its four operators.
\<close>

datatype 'f pyval = IntV int | FloatV 'f | StrV string | NoneV

fun of_payload :: "payload \<Rightarrow> 'f pyval" where
  "of_payload (IntP n) = IntV n"
| "of_payload (StrP s) = StrV s"
| "of_payload NoneP = NoneV"

text \<open>
  Python's float arithmetic, as far as the interpreter uses it. \<open>float_of_int\<close> is the
  conversion of an \<^verbatim>\<open>int\<close> operand that meets a float, \<open>int_truediv\<close> is
  \<^verbatim>\<open>a / b\<close> on two \<^verbatim>\<open>int\<close>s with \<open>b\<close> not zero; both are \<open>None\<close> where
  Python raises \<^verbatim>\<open>OverflowError\<close>. \<open>float_div\<close> is only applied to a divisor that is
  not zero.
\<close>

record 'f float_ops =
  float_of_int :: "int \<Rightarrow> 'f option"
  int_truediv :: "int \<Rightarrow> int \<Rightarrow> 'f option"
  float_add :: "'f \<Rightarrow> 'f \<Rightarrow> 'f"
  float_sub :: "'f \<Rightarrow> 'f \<Rightarrow> 'f"
  float_mul :: "'f \<Rightarrow> 'f \<Rightarrow> 'f"
  float_div :: "'f \<Rightarrow> 'f \<Rightarrow> 'f"
  float_is_zero :: "'f \<Rightarrow> bool"

text \<open>A float operation on two numbers of which at least one is a float.\<close>

fun as_float :: "'f float_ops \<Rightarrow> 'f pyval \<Rightarrow> error + 'f" where
  "as_float ops (IntV a) =
     (case float_of_int ops a of None \<Rightarrow> Inl OverflowError | Some x \<Rightarrow> Inr x)"
| "as_float ops (FloatV x) = Inr x"
| "as_float ops v = Inl TypeError"

definition float_binop ::
  "'f float_ops \<Rightarrow> ('f \<Rightarrow> 'f \<Rightarrow> 'f) \<Rightarrow> 'f pyval \<Rightarrow> 'f pyval \<Rightarrow> error + 'f pyval" where
  "float_binop ops f l r =
     (case as_float ops l of
        Inl e \<Rightarrow> Inl e
      | Inr x \<Rightarrow> (case as_float ops r of Inl e \<Rightarrow> Inl e | Inr y \<Rightarrow> Inr (FloatV (f x y))))"

fun is_number :: "'f pyval \<Rightarrow> bool" where
  "is_number (IntV a) = True"
| "is_number (FloatV x) = True"
| "is_number v = False"

text \<open>\<^verbatim>\<open>l + r\<close>: numbers add, two strings concatenate.\<close>

fun py_add :: "'f float_ops \<Rightarrow> 'f pyval \<Rightarrow> 'f pyval \<Rightarrow> error + 'f pyval" where
  "py_add ops (IntV a) (IntV b) = Inr (IntV (a + b))"
| "py_add ops (StrV s) (StrV t) = Inr (StrV (s @ t))"
| "py_add ops l r =
     (if is_number l \<and> is_number r then float_binop ops (float_add ops) l r else Inl TypeError)"

fun py_sub :: "'f float_ops \<Rightarrow> 'f pyval \<Rightarrow> 'f pyval \<Rightarrow> error + 'f pyval" where
  "py_sub ops (IntV a) (IntV b) = Inr (IntV (a - b))"
| "py_sub ops l r =
     (if is_number l \<and> is_number r then float_binop ops (float_sub ops) l r else Inl TypeError)"

text \<open>\<^verbatim>\<open>l * r\<close>: numbers multiply, a string and an \<^verbatim>\<open>int\<close> repeat the string.\<close>

fun py_mul :: "'f float_ops \<Rightarrow> 'f pyval \<Rightarrow> 'f pyval \<Rightarrow> error + 'f pyval" where
  "py_mul ops (IntV a) (IntV b) = Inr (IntV (a * b))"
| "py_mul ops (StrV s) (IntV n) = Inr (StrV (concat (replicate (nat n) s)))"
| "py_mul ops (IntV n) (StrV s) = Inr (StrV (concat (replicate (nat n) s)))"
| "py_mul ops l r =
     (if is_number l \<and> is_number r then float_binop ops (float_mul ops) l r else Inl TypeError)"

text \<open>\<^verbatim>\<open>v == 0\<close>.\<close>

fun py_eq_zero :: "'f float_ops \<Rightarrow> 'f pyval \<Rightarrow> bool" where
  "py_eq_zero ops (IntV a) = (a = 0)"
| "py_eq_zero ops (FloatV x) = float_is_zero ops x"
| "py_eq_zero ops v = False"

text \<open>\<^verbatim>\<open>l / r\<close>, true division.\<close>

fun py_truediv :: "'f float_ops \<Rightarrow> 'f pyval \<Rightarrow> 'f pyval \<Rightarrow> error + 'f pyval" where
  "py_truediv ops (IntV a) (IntV b) =
     (if b = 0 then Inl ZeroDivisionError
      else (case int_truediv ops a b of None \<Rightarrow> Inl OverflowError | Some x \<Rightarrow> Inr (FloatV x)))"
| "py_truediv ops l r =
     (if is_number l \<and> is_number r then
        (case as_float ops l of
           Inl e \<Rightarrow> Inl e
         | Inr x \<Rightarrow>
             (case as_float ops r of
                Inl e \<Rightarrow> Inl e
              | Inr y \<Rightarrow>
                  if float_is_zero ops y then Inl ZeroDivisionError
                  else Inr (FloatV (float_div ops x y))))
      else Inl TypeError)"

subsection \<open>Interpreter\<close>

text \<open>
  \<^verbatim>\<open>visit\<close> looks up the method \<^verbatim>\<open>visit_\<close> followed by the name of the node's
  type: \<^verbatim>\<open>visit_BinOp\<close> and \<^verbatim>\<open>visit_Num\<close> exist, and \<^verbatim>\<open>None\<close>, of type
  \<^verbatim>\<open>NoneType\<close>, goes to \<^verbatim>\<open>generic_visit\<close>.
\<close>

fun type_name :: "ast \<Rightarrow> string" where
  "type_name NoneNode = ''NoneType''"
| "type_name (Num token) = ''Num''"
| "type_name (BinOp left op right) = ''BinOp''"

definition generic_visit :: "ast \<Rightarrow> error + 'f pyval" where
  "generic_visit node = Inl (GenericException (type_name node))"

fun visit :: "'f float_ops \<Rightarrow> ast \<Rightarrow> error + 'f pyval" where
  "visit ops (BinOp left op right) =
     (if ttype op = PLUS then
        (case visit ops left of
           Inl e \<Rightarrow> Inl e
         | Inr l \<Rightarrow> (case visit ops right of Inl e \<Rightarrow> Inl e | Inr r \<Rightarrow> py_add ops l r))
      else if ttype op = MINUS then
        (case visit ops left of
           Inl e \<Rightarrow> Inl e
         | Inr l \<Rightarrow> (case visit ops right of Inl e \<Rightarrow> Inl e | Inr r \<Rightarrow> py_sub ops l r))
      else if ttype op = MUL then
        (case visit ops left of
           Inl e \<Rightarrow> Inl e
         | Inr l \<Rightarrow> (case visit ops right of Inl e \<Rightarrow> Inl e | Inr r \<Rightarrow> py_mul ops l r))
      else if ttype op = DIV then
        (case visit ops right of
           Inl e \<Rightarrow> Inl e
         | Inr right_val \<Rightarrow>
             if py_eq_zero ops right_val then Inl ZeroDivisionError
             else (case visit ops left of
                     Inl e \<Rightarrow> Inl e
                   | Inr l \<Rightarrow> py_truediv ops l right_val))
      else Inr NoneV)"
| "visit ops (Num token) = Inr (of_payload (tvalue token))"
| "visit ops NoneNode = generic_visit NoneNode"

text \<open>\<^verbatim>\<open>Interpreter.interpret\<close> (the name \<open>interpret\<close> is taken by Isar).\<close>

definition interpret_py :: "'f float_ops \<Rightarrow> parser_state \<Rightarrow> (error + 'f pyval) option" where
  "interpret_py ops p =
     (case parse p of
        None \<Rightarrow> None
      | Some (Inl e) \<Rightarrow> Some (Inl e)
      | Some (Inr tree) \<Rightarrow> Some (visit ops tree))"

text \<open>
  The call of the read loop: \<^verbatim>\<open>Interpreter(Parser(Lexer(text))).interpret()\<close>.
\<close>

definition evaluate :: "'f float_ops \<Rightarrow> string \<Rightarrow> (error + 'f pyval) option" where
  "evaluate ops s =
     (case Parser (Lexer s) of
        Inl e \<Rightarrow> Some (Inl e)
      | Inr p \<Rightarrow> interpret_py ops p)"

text \<open>The tree that \<^verbatim>\<open>Parser(Lexer(text)).parse()\<close> returns, for statements about trees.\<close>

definition parse_text :: "string \<Rightarrow> (error + ast) option" where
  "parse_text s = (case Parser (Lexer s) of Inl e \<Rightarrow> Some (Inl e) | Inr p \<Rightarrow> parse p)"

section \<open>Notions for the statements\<close>

text \<open>
  The invariant of the cursor: the position is within the text, and the current
  character is the character at the position, or none at the end of the text.
\<close>

definition lexer_inv :: "lexer_state \<Rightarrow> bool" where
  "lexer_inv s =
     (pos s \<le> length (text_str s) \<and>
      current_char s = (if pos s < length (text_str s) then Some (text_str s ! pos s) else None))"

text \<open>What a method keeps: the text, the invariant, and the position never moves back.\<close>

definition lexer_step :: "lexer_state \<Rightarrow> lexer_state \<Rightarrow> bool" where
  "lexer_step s s' =
     (text_str s' = text_str s \<and> pos s \<le> pos s' \<and> (lexer_inv s \<longrightarrow> lexer_inv s'))"

text \<open>The methods a caller can run on a lexer; \<^verbatim>\<open>advance\<close> is their helper.\<close>

datatype lexer_call = CallGetNextToken | CallSkipWhitespace | CallInteger

fun do_call :: "lexer_call \<Rightarrow> lexer_state \<Rightarrow> lexer_state" where
  "do_call CallGetNextToken s = snd (get_next_token s)"
| "do_call CallSkipWhitespace s = skip_whitespace s"
| "do_call CallInteger s = snd (integer s)"

definition run_calls :: "lexer_call list \<Rightarrow> lexer_state \<Rightarrow> lexer_state" where
  "run_calls cs s = foldl (\<lambda>s c. do_call c s) s cs"


text \<open>
  An instance of the float operations for running the interpreter on examples: floats
  that neither round nor overflow.
\<close>

definition exact_ops :: "rat float_ops" where
  "exact_ops =
     \<lparr>float_of_int = (\<lambda>a. Some (of_int a)),
      int_truediv = (\<lambda>a b. Some (of_int a / of_int b)),
      float_add = (\<lambda>x y. x + y),
      float_sub = (\<lambda>x y. x - y),
      float_mul = (\<lambda>x y. x * y),
      float_div = (\<lambda>x y. x / y),
      float_is_zero = (\<lambda>x. x = 0)\<rparr>"

text \<open>
  The order that C8 describes for a division node, written out for comparison: the left
  operand first, then the right operand and its check.
\<close>

definition visit_div_left_first :: "'f float_ops \<Rightarrow> ast \<Rightarrow> ast \<Rightarrow> error + 'f pyval" where
  "visit_div_left_first ops left right =
     (case visit ops left of
        Inl e \<Rightarrow> Inl e
      | Inr l \<Rightarrow>
          (case visit ops right of
             Inl e \<Rightarrow> Inl e
           | Inr right_val \<Rightarrow>
               if py_eq_zero ops right_val then Inl ZeroDivisionError
               else py_truediv ops l right_val))"

text \<open>A call came back, by a return that left no more to parse than before or by a raise.\<close>

definition finishes :: "parse_result \<Rightarrow> parser_state \<Rightarrow> bool" where
  "finishes r p =
     (case r of
        None \<Rightarrow> False
      | Some (Inl e) \<Rightarrow> True
      | Some (Inr (node, p')) \<Rightarrow> parse_rem p' \<le> parse_rem p)"

text \<open>The lexer on the text \<open>t\<close> at the position \<open>i\<close>.\<close>

definition lexer_at :: "string \<Rightarrow> nat \<Rightarrow> lexer_state" where
  "lexer_at t i =
     \<lparr>text_str = t, pos = i, current_char = (if i < length t then Some (t ! i) else None)\<rparr>"








section \<open>Running the pipeline on a given text\<close>

text \<open>
  On a literal text the definitions are unfolded by the simplifier. A depth bound that is
  a numeral is opened one call at a time.
\<close>

lemmas factor_numeral = factor.simps(2) [of "pred_numeral k", folded numeral_eq_Suc] for k

lemmas term_loop_numeral = term_loop.simps(2) [of "pred_numeral k", folded numeral_eq_Suc] for k

lemmas term_py_numeral = term_py.simps(2) [of "pred_numeral k", folded numeral_eq_Suc] for k

lemmas expr_loop_numeral = expr_loop.simps(2) [of "pred_numeral k", folded numeral_eq_Suc] for k

lemmas expr_numeral = expr.simps(2) [of "pred_numeral k", folded numeral_eq_Suc] for k

lemmas lex_simps =
  Lexer_def advance_def get_next_token.simps skip_whitespace.simps integer_loop.simps
  integer_def py_int_def max_str_digits_def isspace_def isdigit_def is_decimal_def
  digit_val_def

lemmas run_simps =
  evaluate_def interpret_py_def parse_text_def parse_def depth_bound_def parse_rem_def
  lex_rem_def Parser_def eat_def lex_simps generic_visit_def Let_def
  factor_numeral term_loop_numeral term_py_numeral expr_loop_numeral expr_numeral

section \<open>Precedence, associativity and grouping\<close>

text \<open>
  C2. Evaluation realises the grammar's precedence and associativity: \<open>2+3*4\<close> is 14,
  \<open>10-2-3\<close> is 5 because a chain of operators of one precedence is folded to the left
  (the tree is \<open>(10-2)-3\<close>), and \<open>(2+3)*4\<close> is 20 because the parentheses make the
  sum the left operand of the product.
\<close>

theorem precedence_and_associativity:
  "evaluate ops ''2+3*4'' = Some (Inr (IntV 14)) \<and>
   evaluate ops ''10-2-3'' = Some (Inr (IntV 5)) \<and>
   parse_text ''10-2-3'' =
     Some (Inr (BinOp (BinOp (Num (Token INTEGER (IntP 10))) (Token MINUS (StrP ''-''))
                             (Num (Token INTEGER (IntP 2))))
                      (Token MINUS (StrP ''-'')) (Num (Token INTEGER (IntP 3))))) \<and>
   evaluate ops ''(2+3)*4'' = Some (Inr (IntV 20)) \<and>
   parse_text ''(2+3)*4'' =
     Some (Inr (BinOp (BinOp (Num (Token INTEGER (IntP 2))) (Token PLUS (StrP ''+''))
                             (Num (Token INTEGER (IntP 3))))
                      (Token MUL (StrP ''*'')) (Num (Token INTEGER (IntP 4)))))"
proof (intro conjI)
  show "evaluate ops ''2+3*4'' = Some (Inr (IntV 14))"
    by (simp add: run_simps)
  show "evaluate ops ''10-2-3'' = Some (Inr (IntV 5))"
    by (simp add: run_simps)
  show "evaluate ops ''(2+3)*4'' = Some (Inr (IntV 20))"
    by (simp add: run_simps)
  show "parse_text ''10-2-3'' =
     Some (Inr (BinOp (BinOp (Num (Token INTEGER (IntP 10))) (Token MINUS (StrP ''-''))
                             (Num (Token INTEGER (IntP 2))))
                      (Token MINUS (StrP ''-'')) (Num (Token INTEGER (IntP 3)))))"
    by (simp add: run_simps)
  show "parse_text ''(2+3)*4'' =
     Some (Inr (BinOp (BinOp (Num (Token INTEGER (IntP 2))) (Token PLUS (StrP ''+''))
                             (Num (Token INTEGER (IntP 3))))
                      (Token MUL (StrP ''*'')) (Num (Token INTEGER (IntP 4)))))"
    by (simp add: run_simps)
qed

section \<open>The cursor of the lexer\<close>

lemma lexer_inv_Lexer: "lexer_inv (Lexer t)"
  by (cases t) (simp_all add: lexer_inv_def Lexer_def)

lemma text_str_Lexer: "text_str (Lexer t) = t"
  by (simp add: Lexer_def)

lemma pos_Lexer: "pos (Lexer t) = 0"
  by (simp add: Lexer_def)

lemma text_str_advance: "text_str (advance s) = text_str s"
  by (simp add: advance_def)

lemma pos_advance: "pos (advance s) = Suc (pos s)"
  by (simp add: advance_def)

lemma lexer_inv_advance:
  "lexer_inv s \<Longrightarrow> current_char s = Some c \<Longrightarrow> lexer_inv (advance s)"
  by (auto simp: lexer_inv_def advance_def split: if_splits)

lemma lexer_step_refl: "lexer_step s s"
  by (simp add: lexer_step_def)

lemma lexer_step_trans: "lexer_step s s' \<Longrightarrow> lexer_step s' s'' \<Longrightarrow> lexer_step s s''"
  by (auto simp: lexer_step_def)

lemma lexer_step_advance: "current_char s = Some c \<Longrightarrow> lexer_step s (advance s)"
  by (simp add: lexer_step_def text_str_advance pos_advance lexer_inv_advance)

lemma lexer_step_skip_whitespace: "lexer_step s (skip_whitespace s)"
proof (induction s rule: skip_whitespace.induct)
  case (1 s)
  show ?case
  proof (cases "current_char s")
    case None
    then show ?thesis by (simp add: skip_whitespace.simps [of s] lexer_step_refl)
  next
    case (Some c)
    show ?thesis
    proof (cases "isspace c")
      case True
      with Some "1" have "lexer_step (advance s) (skip_whitespace (advance s))" by simp
      with lexer_step_advance [OF Some] have "lexer_step s (skip_whitespace (advance s))"
        by (rule lexer_step_trans)
      with Some True show ?thesis by (simp add: skip_whitespace.simps [of s])
    next
      case False
      with Some show ?thesis by (simp add: skip_whitespace.simps [of s] lexer_step_refl)
    qed
  qed
qed

lemma lexer_step_integer_loop: "lexer_step s (snd (integer_loop s r))"
proof (induction s r rule: integer_loop.induct)
  case (1 s r)
  show ?case
  proof (cases "current_char s")
    case None
    then show ?thesis by (simp add: integer_loop.simps [of s] lexer_step_refl)
  next
    case (Some c)
    show ?thesis
    proof (cases "isdigit c")
      case True
      with Some "1" have "lexer_step (advance s) (snd (integer_loop (advance s) (r @ [c])))"
        by simp
      with lexer_step_advance [OF Some]
      have "lexer_step s (snd (integer_loop (advance s) (r @ [c])))"
        by (rule lexer_step_trans)
      with Some True show ?thesis by (simp add: integer_loop.simps [of s])
    next
      case False
      with Some show ?thesis by (simp add: integer_loop.simps [of s] lexer_step_refl)
    qed
  qed
qed

lemma lexer_step_integer: "lexer_step s (snd (integer s))"
  using lexer_step_integer_loop [of s "[]"]
  by (cases "integer_loop s []") (simp add: integer_def)

lemma lexer_step_get_next_token: "lexer_step s (snd (get_next_token s))"
proof (induction s rule: get_next_token.induct)
  case (1 s)
  show ?case
  proof (cases "current_char s")
    case None
    then show ?thesis by (simp add: get_next_token.simps [of s] lexer_step_refl)
  next
    case (Some c)
    show ?thesis
    proof (cases "isspace c")
      case True
      with Some "1" have "lexer_step (skip_whitespace s) (snd (get_next_token (skip_whitespace s)))"
        by simp
      with lexer_step_skip_whitespace [of s]
      have "lexer_step s (snd (get_next_token (skip_whitespace s)))"
        by (rule lexer_step_trans)
      with Some True show ?thesis by (simp add: get_next_token.simps [of s])
    next
      case False
      show ?thesis
      proof (cases "isdigit c")
        case True
        with Some False lexer_step_integer [of s] show ?thesis
          by (auto simp: get_next_token.simps [of s] split: prod.splits sum.splits)
      next
        case nd: False
        with Some False lexer_step_advance [OF Some] show ?thesis
          by (simp add: get_next_token.simps [of s] lexer_step_refl)
      qed
    qed
  qed
qed

text \<open>
  \<^verbatim>\<open>advance\<close> is called by the methods only on a current character, where it keeps
  the invariant. Called by itself at the end of the text, it would leave the position one
  past the length.
\<close>

lemma advance_past_end:
  "pos (advance (Lexer [])) = 1 \<and> length (text_str (advance (Lexer []))) = 0"
  by (simp add: advance_def Lexer_def)

lemma run_calls_append: "run_calls (cs @ cs') s = run_calls cs' (run_calls cs s)"
  by (simp add: run_calls_def)

lemma lexer_step_do_call: "lexer_step s (do_call c s)"
  by (cases c)
    (simp_all add: lexer_step_get_next_token lexer_step_skip_whitespace lexer_step_integer)

lemma lexer_step_run_calls: "lexer_step s (run_calls cs s)"
proof (induction cs rule: rev_induct)
  case Nil
  show ?case by (simp add: run_calls_def lexer_step_refl)
next
  case (snoc c cs)
  have "run_calls (cs @ [c]) s = do_call c (run_calls cs s)"
    by (simp add: run_calls_def)
  with snoc lexer_step_do_call [of "run_calls cs s" c] show ?case
    by (auto intro: lexer_step_trans)
qed

text \<open>
  C9. Whatever calls of \<^verbatim>\<open>get_next_token\<close>, \<^verbatim>\<open>skip_whitespace\<close> and
  \<^verbatim>\<open>integer\<close> are made on a fresh lexer, in any order and also after a call that
  raised: the text is the one given, the position is at most its length, the current
  character is the character at the position, or none when the position is the length,
  and further calls never move the position back.
\<close>

theorem lexer_cursor_invariant:
  "text_str (run_calls cs (Lexer t)) = t \<and>
   pos (run_calls cs (Lexer t)) \<le> length t \<and>
   current_char (run_calls cs (Lexer t)) =
     (if pos (run_calls cs (Lexer t)) < length t
      then Some (t ! pos (run_calls cs (Lexer t))) else None) \<and>
   pos (run_calls cs (Lexer t)) \<le> pos (run_calls (cs @ cs') (Lexer t))"
proof -
  have "lexer_step (Lexer t) (run_calls cs (Lexer t))"
    by (rule lexer_step_run_calls)
  then have same: "text_str (run_calls cs (Lexer t)) = t"
    and inv: "lexer_inv (run_calls cs (Lexer t))"
    by (simp_all add: lexer_step_def lexer_inv_Lexer text_str_Lexer)
  have "lexer_step (run_calls cs (Lexer t)) (run_calls cs' (run_calls cs (Lexer t)))"
    by (rule lexer_step_run_calls)
  then have mono: "pos (run_calls cs (Lexer t)) \<le> pos (run_calls (cs @ cs') (Lexer t))"
    by (simp add: lexer_step_def run_calls_append)
  from inv same mono show ?thesis
    by (simp add: lexer_inv_def)
qed

section \<open>End of input\<close>

lemma get_next_token_at_end:
  "current_char s = None \<Longrightarrow> get_next_token s = (Inr (Token EOF NoneP), s)"
  by (simp add: get_next_token.simps [of s])

lemma lexer_inv_at_end: "lexer_inv s \<Longrightarrow> pos s = length (text_str s) \<Longrightarrow> current_char s = None"
  by (simp add: lexer_inv_def)

lemma pulls_at_end:
  "current_char s = None \<Longrightarrow> run_calls (replicate n CallGetNextToken) s = s"
  by (induction n) (simp_all add: run_calls_def get_next_token_at_end)

lemma eof_token_at_end:
  "get_next_token s = (Inr tok, s') \<Longrightarrow> ttype tok = EOF \<Longrightarrow> current_char s' = None"
proof (induction s rule: get_next_token.induct)
  case (1 s)
  show ?case
  proof (cases "current_char s")
    case None
    with "1.prems" show ?thesis by (simp add: get_next_token.simps [of s])
  next
    case (Some c)
    show ?thesis
    proof (cases "isspace c")
      case True
      with Some "1.prems" have "get_next_token (skip_whitespace s) = (Inr tok, s')"
        by (simp add: get_next_token.simps [of s])
      with "1.IH" Some True "1.prems"(2) show ?thesis by simp
    next
      case False
      with Some "1.prems" show ?thesis
        by (auto simp: get_next_token.simps [of s] split: if_splits prod.splits sum.splits)
    qed
  qed
qed

text \<open>
  C5. Once the position is the length of the text, \<^verbatim>\<open>get_next_token\<close> returns the
  token \<open>EOF\<close> with the payload \<^verbatim>\<open>None\<close> and leaves the lexer as it is, however many
  times it was pulled before; and once a pull has returned \<open>EOF\<close>, every later pull
  returns \<open>EOF\<close> again from the same state. No pull raises or moves the position.
\<close>

theorem eof_is_idempotent:
  "(lexer_inv s \<and> pos s = length (text_str s) \<longrightarrow>
      get_next_token (run_calls (replicate n CallGetNextToken) s) = (Inr (Token EOF NoneP), s)) \<and>
   (get_next_token s = (Inr tok, s') \<and> ttype tok = EOF \<longrightarrow>
      get_next_token (run_calls (replicate n CallGetNextToken) s') = (Inr (Token EOF NoneP), s'))"
proof (intro conjI impI)
  assume "lexer_inv s \<and> pos s = length (text_str s)"
  then have "current_char s = None" by (simp add: lexer_inv_at_end)
  then show "get_next_token (run_calls (replicate n CallGetNextToken) s) = (Inr (Token EOF NoneP), s)"
    by (simp add: pulls_at_end get_next_token_at_end)
next
  assume "get_next_token s = (Inr tok, s') \<and> ttype tok = EOF"
  then have "current_char s' = None" by (auto dest: eof_token_at_end)
  then show "get_next_token (run_calls (replicate n CallGetNextToken) s') = (Inr (Token EOF NoneP), s')"
    by (simp add: pulls_at_end get_next_token_at_end)
qed

theorem eof_is_idempotent_witness:
  "lexer_inv \<lparr>text_str = '' '', pos = 1, current_char = None\<rparr> \<and>
   pos \<lparr>text_str = '' '', pos = 1, current_char = None\<rparr> = length '' '' \<and>
   get_next_token (Lexer '' '')
     = (Inr (Token EOF NoneP), \<lparr>text_str = '' '', pos = 1, current_char = None\<rparr>) \<and>
   get_next_token (run_calls (replicate 2 CallGetNextToken)
       \<lparr>text_str = '' '', pos = 1, current_char = None\<rparr>)
     = (Inr (Token EOF NoneP), \<lparr>text_str = '' '', pos = 1, current_char = None\<rparr>) \<and>
   get_next_token (run_calls (replicate 3 CallGetNextToken) (Lexer '' ''))
     = (Inr (Token EOF NoneP), \<lparr>text_str = '' '', pos = 1, current_char = None\<rparr>)"
proof -
  let ?e = "\<lparr>text_str = '' '', pos = 1, current_char = None\<rparr>"
  have pull: "get_next_token (Lexer '' '') = (Inr (Token EOF NoneP), ?e)"
    by (simp add: lex_simps)
  have inv: "lexer_inv ?e \<and> pos ?e = length (text_str ?e)"
    by (simp add: lexer_inv_def)
  have r: "run_calls (replicate 3 CallGetNextToken) (Lexer '' '')
      = run_calls (replicate 2 CallGetNextToken) ?e"
    by (simp add: run_calls_def numeral_3_eq_3 numeral_2_eq_2 pull)
  from eof_is_idempotent [where s = ?e and n = 2] inv
  have a: "get_next_token (run_calls (replicate 2 CallGetNextToken) ?e)
      = (Inr (Token EOF NoneP), ?e)"
    by blast
  from eof_is_idempotent [where s = "Lexer '' ''" and tok = "Token EOF NoneP" and s' = ?e and n = 2]
    pull
  have b: "get_next_token (run_calls (replicate 2 CallGetNextToken) ?e)
      = (Inr (Token EOF NoneP), ?e)"
    by simp
  from inv pull a b r show ?thesis by simp
qed

section \<open>Lexical errors\<close>

lemma skip_whitespace_stops: "current_char (skip_whitespace s) = Some c \<Longrightarrow> \<not> isspace c"
proof (induction s rule: skip_whitespace.induct)
  case (1 s)
  show ?case
  proof (cases "current_char s")
    case None
    with "1.prems" show ?thesis by (simp add: skip_whitespace.simps [of s])
  next
    case (Some d)
    show ?thesis
    proof (cases "isspace d")
      case True
      with Some "1.prems" have "current_char (skip_whitespace (advance s)) = Some c"
        by (simp add: skip_whitespace.simps [of s])
      with "1.IH" Some True show ?thesis by simp
    next
      case False
      with Some "1.prems" show ?thesis by (simp add: skip_whitespace.simps [of s])
    qed
  qed
qed

lemma skip_whitespace_no_space:
  "current_char s = Some c \<Longrightarrow> \<not> isspace c \<Longrightarrow> skip_whitespace s = s"
  by (simp add: skip_whitespace.simps [of s])

lemma skip_whitespace_idem: "skip_whitespace (skip_whitespace s) = skip_whitespace s"
proof (cases "current_char (skip_whitespace s)")
  case None
  then show ?thesis by (simp add: skip_whitespace.simps [of "skip_whitespace s"])
next
  case (Some c)
  with skip_whitespace_stops [OF Some] show ?thesis by (simp add: skip_whitespace_no_space)
qed

lemma get_next_token_skip: "get_next_token (skip_whitespace s) = get_next_token s"
proof (cases "current_char s")
  case None
  then show ?thesis by (simp add: skip_whitespace.simps [of s])
next
  case (Some c)
  then show ?thesis
    by (cases "isspace c") (simp_all add: get_next_token.simps [of s] skip_whitespace_no_space)
qed








section \<open>Division\<close>

lemma visit_div_right_error:
  "ttype op = DIV \<Longrightarrow> visit ops right = Inl e \<Longrightarrow> visit ops (BinOp left op right) = Inl e"
  by simp

lemma visit_div_zero:
  "ttype op = DIV \<Longrightarrow> visit ops right = Inr v \<Longrightarrow> py_eq_zero ops v \<Longrightarrow>
   visit ops (BinOp left op right) = Inl ZeroDivisionError"
  by simp

lemma visit_div_left_error:
  "ttype op = DIV \<Longrightarrow> visit ops right = Inr v \<Longrightarrow> \<not> py_eq_zero ops v \<Longrightarrow>
   visit ops left = Inl e \<Longrightarrow> visit ops (BinOp left op right) = Inl e"
  by simp

text \<open>
  C3. A division node whose right operand evaluates to zero, the \<^verbatim>\<open>int\<close> or a float,
  raises \<^verbatim>\<open>ZeroDivisionError\<close> whatever its left operand is, and no division is
  made. The check is made when the node is visited and not before: \<open>5/0\<close> is parsed to a
  tree and raises on evaluation, and in \<open>(+1)+5/0\<close> the left operand of the sum raises
  first, so the division by zero is never reported.
\<close>

theorem division_by_zero_is_raised_at_the_node:
  "(ttype op = DIV \<and> visit ops right = Inr v \<and> py_eq_zero ops v \<longrightarrow>
      visit ops (BinOp left op right) = Inl ZeroDivisionError) \<and>
   parse_text ''5/0'' =
     Some (Inr (BinOp (Num (Token INTEGER (IntP 5))) (Token DIV (StrP ''/''))
                      (Num (Token INTEGER (IntP 0))))) \<and>
   evaluate ops ''5/0'' = Some (Inl ZeroDivisionError) \<and>
   evaluate ops ''(+1)+5/0'' = Some (Inl (GenericException ''NoneType''))"
proof (intro conjI impI)
  assume "ttype op = DIV \<and> visit ops right = Inr v \<and> py_eq_zero ops v"
  then show "visit ops (BinOp left op right) = Inl ZeroDivisionError"
    by (simp add: visit_div_zero)
next
  show "parse_text ''5/0'' =
     Some (Inr (BinOp (Num (Token INTEGER (IntP 5))) (Token DIV (StrP ''/''))
                      (Num (Token INTEGER (IntP 0)))))"
    by (simp add: run_simps)
next
  show "evaluate ops ''5/0'' = Some (Inl ZeroDivisionError)"
    by (simp add: run_simps)
next
  show "evaluate ops ''(+1)+5/0'' = Some (Inl (GenericException ''NoneType''))"
    by (simp add: run_simps)
qed

text \<open>The instance: \<open>5/(0/7)\<close>, whose right operand is the float zero.\<close>

theorem division_by_zero_is_raised_at_the_node_witness:
  "ttype (Token DIV (StrP ''/'')) = DIV \<and>
   visit exact_ops (BinOp (Num (Token INTEGER (IntP 0))) (Token DIV (StrP ''/''))
                          (Num (Token INTEGER (IntP 7)))) = Inr (FloatV 0) \<and>
   py_eq_zero exact_ops (FloatV 0) \<and>
   visit exact_ops
     (BinOp (Num (Token INTEGER (IntP 5))) (Token DIV (StrP ''/''))
        (BinOp (Num (Token INTEGER (IntP 0))) (Token DIV (StrP ''/''))
               (Num (Token INTEGER (IntP 7))))) = Inl ZeroDivisionError"
proof -
  let ?r = "BinOp (Num (Token INTEGER (IntP 0))) (Token DIV (StrP ''/''))
                  (Num (Token INTEGER (IntP 7)))"
  have h: "ttype (Token DIV (StrP ''/'')) = DIV \<and> visit exact_ops ?r = Inr (FloatV 0) \<and>
      py_eq_zero exact_ops (FloatV 0)"
    by (simp add: exact_ops_def)
  from division_by_zero_is_raised_at_the_node
    [where op = "Token DIV (StrP ''/'')" and ops = exact_ops and right = ?r
       and v = "FloatV 0" and left = "Num (Token INTEGER (IntP 5))"] h
  have "visit exact_ops (BinOp (Num (Token INTEGER (IntP 5))) (Token DIV (StrP ''/'')) ?r)
      = Inl ZeroDivisionError"
    by blast
  with h show ?thesis by simp
qed

text \<open>
  C8, as stated, fails. In the tree of \<open>/0\<close> the left operand is the \<^verbatim>\<open>None\<close> that
  \<^verbatim>\<open>factor\<close> returned, whose visit raises the generic exception. Were it visited
  before the check of the right operand, that exception would come out; the node raises
  \<^verbatim>\<open>ZeroDivisionError\<close>.
\<close>

theorem division_left_first_counterexample:
  "parse_text ''/0'' =
     Some (Inr (BinOp NoneNode (Token DIV (StrP ''/'')) (Num (Token INTEGER (IntP 0))))) \<and>
   visit_div_left_first exact_ops NoneNode (Num (Token INTEGER (IntP 0)))
     = Inl (GenericException ''NoneType'') \<and>
   visit exact_ops (BinOp NoneNode (Token DIV (StrP ''/'')) (Num (Token INTEGER (IntP 0))))
     = Inl ZeroDivisionError \<and>
   evaluate exact_ops ''/0'' = Some (Inl ZeroDivisionError)"
proof (intro conjI)
  show "parse_text ''/0'' =
     Some (Inr (BinOp NoneNode (Token DIV (StrP ''/'')) (Num (Token INTEGER (IntP 0)))))"
    by (simp add: run_simps)
  show "visit_div_left_first exact_ops NoneNode (Num (Token INTEGER (IntP 0)))
     = Inl (GenericException ''NoneType'')"
    by (simp add: visit_div_left_first_def generic_visit_def)
  show "visit exact_ops (BinOp NoneNode (Token DIV (StrP ''/'')) (Num (Token INTEGER (IntP 0))))
     = Inl ZeroDivisionError"
    by simp
  show "evaluate exact_ops ''/0'' = Some (Inl ZeroDivisionError)"
    by (simp add: run_simps)
qed

text \<open>
  C8, amended. A division node visits its right operand first and checks the value for
  zero; the left operand is visited only after the check has passed. So an exception of
  the right operand comes out whatever the left operand is, then
  \<^verbatim>\<open>ZeroDivisionError\<close> whatever the left operand is, and only then an exception of
  the left operand.
\<close>

theorem division_evaluates_right_operand_first:
  "ttype op = DIV \<Longrightarrow>
   (visit ops right = Inl e \<longrightarrow> visit ops (BinOp left op right) = Inl e) \<and>
   (visit ops right = Inr v \<and> py_eq_zero ops v \<longrightarrow>
      visit ops (BinOp left op right) = Inl ZeroDivisionError) \<and>
   (visit ops right = Inr v \<and> \<not> py_eq_zero ops v \<and> visit ops left = Inl e \<longrightarrow>
      visit ops (BinOp left op right) = Inl e) \<and>
   (visit ops right = Inr v \<and> \<not> py_eq_zero ops v \<and> visit ops left = Inr l \<longrightarrow>
      visit ops (BinOp left op right) = py_truediv ops l v)"
  by simp

theorem division_evaluates_right_operand_first_witness:
  "visit exact_ops (BinOp (BinOp (Num (Token INTEGER (IntP 1))) (Token DIV (StrP ''/''))
                                 (Num (Token INTEGER (IntP 0))))
                          (Token DIV (StrP ''/'')) NoneNode)
     = Inl (GenericException ''NoneType'') \<and>
   visit exact_ops (BinOp NoneNode (Token DIV (StrP ''/'')) (Num (Token INTEGER (IntP 0))))
     = Inl ZeroDivisionError \<and>
   visit exact_ops (BinOp NoneNode (Token DIV (StrP ''/'')) (Num (Token INTEGER (IntP 2))))
     = Inl (GenericException ''NoneType'') \<and>
   visit exact_ops (BinOp (Num (Token INTEGER (IntP 1))) (Token DIV (StrP ''/''))
                          (Num (Token INTEGER (IntP 2))))
     = Inr (FloatV (1 / 2))"
proof -
  let ?d = "Token DIV (StrP ''/'')"
  let ?n = "\<lambda>k. Num (Token INTEGER (IntP k))"
  have d: "ttype ?d = DIV" by simp
  have r1: "visit exact_ops NoneNode = Inl (GenericException ''NoneType'')"
    by (simp add: generic_visit_def)
  have r2: "visit exact_ops (?n 0) = Inr (IntV 0) \<and> py_eq_zero exact_ops (IntV 0)"
    by simp
  have r3: "visit exact_ops (?n 2) = Inr (IntV 2) \<and> \<not> py_eq_zero exact_ops (IntV 2)"
    by simp
  have l4: "visit exact_ops (?n 1) = Inr (IntV 1)"
    by simp
  from division_evaluates_right_operand_first
    [OF d, where ops = exact_ops and right = NoneNode and e = "GenericException ''NoneType''"
       and left = "BinOp (?n 1) ?d (?n 0)"] r1
  have a: "visit exact_ops (BinOp (BinOp (?n 1) ?d (?n 0)) ?d NoneNode)
      = Inl (GenericException ''NoneType'')"
    by blast
  from division_evaluates_right_operand_first
    [OF d, where ops = exact_ops and right = "?n 0" and v = "IntV 0" and left = NoneNode] r2
  have b: "visit exact_ops (BinOp NoneNode ?d (?n 0)) = Inl ZeroDivisionError"
    by blast
  from division_evaluates_right_operand_first
    [OF d, where ops = exact_ops and right = "?n 2" and v = "IntV 2" and left = NoneNode
       and e = "GenericException ''NoneType''"] r1 r3
  have c: "visit exact_ops (BinOp NoneNode ?d (?n 2)) = Inl (GenericException ''NoneType'')"
    by blast
  from division_evaluates_right_operand_first
    [OF d, where ops = exact_ops and right = "?n 2" and v = "IntV 2" and left = "?n 1"
       and l = "IntV 1"] r3 l4
  have e: "visit exact_ops (BinOp (?n 1) ?d (?n 2)) = py_truediv exact_ops (IntV 1) (IntV 2)"
    by blast
  have "py_truediv exact_ops (IntV 1) (IntV 2) = Inr (FloatV (1 / 2))"
    by (simp add: exact_ops_def)
  with a b c e show ?thesis by simp
qed

section \<open>A token that starts no factor\<close>

text \<open>
  C7 says that a token other than \<open>INTEGER\<close> and \<open>LPAREN\<close> where a factor is expected
  ends in \<^verbatim>\<open>ParsingError\<close>. \<^verbatim>\<open>factor\<close> has no branch for it and returns
  \<^verbatim>\<open>None\<close>: \<open>+2\<close> and \<open>2+\<close> are parsed to trees with \<^verbatim>\<open>None\<close> for the missing
  operand, and their evaluation raises the generic exception of
  \<^verbatim>\<open>generic_visit\<close>.
\<close>

theorem operator_at_factor_position:
  "parse_text ''+2'' =
     Some (Inr (BinOp NoneNode (Token PLUS (StrP ''+'')) (Num (Token INTEGER (IntP 2))))) \<and>
   evaluate ops ''+2'' = Some (Inl (GenericException ''NoneType'')) \<and>
   parse_text ''2+'' =
     Some (Inr (BinOp (Num (Token INTEGER (IntP 2))) (Token PLUS (StrP ''+'')) NoneNode)) \<and>
   evaluate ops ''2+'' = Some (Inl (GenericException ''NoneType''))"
proof (intro conjI)
  show "parse_text ''+2'' =
     Some (Inr (BinOp NoneNode (Token PLUS (StrP ''+'')) (Num (Token INTEGER (IntP 2)))))"
    by (simp add: run_simps)
  show "evaluate ops ''+2'' = Some (Inl (GenericException ''NoneType''))"
    by (simp add: run_simps)
  show "parse_text ''2+'' =
     Some (Inr (BinOp (Num (Token INTEGER (IntP 2))) (Token PLUS (StrP ''+'')) NoneNode))"
    by (simp add: run_simps)
  show "evaluate ops ''2+'' = Some (Inl (GenericException ''NoneType''))"
    by (simp add: run_simps)
qed

section \<open>The depth bound is never reached\<close>

lemma lex_rem_advance: "current_char s = Some c \<Longrightarrow> lex_rem (advance s) < lex_rem s"
  by (auto simp: lex_rem_def advance_def)

lemma lex_rem_skip_whitespace: "lex_rem (skip_whitespace s) \<le> lex_rem s"
proof (induction s rule: skip_whitespace.induct)
  case (1 s)
  show ?case
  proof (cases "current_char s")
    case None
    then show ?thesis by (simp add: skip_whitespace.simps [of s])
  next
    case (Some c)
    with "1" lex_rem_advance [OF Some] show ?thesis
      by (simp add: skip_whitespace.simps [of s]) (metis le_trans less_imp_le_nat)
  qed
qed

lemma lex_rem_skip_whitespace_less:
  assumes "current_char s = Some c" "isspace c"
  shows "lex_rem (skip_whitespace s) < lex_rem s"
proof -
  have "skip_whitespace s = skip_whitespace (advance s)"
    using assms by (simp add: skip_whitespace.simps [of s])
  then show ?thesis
    using lex_rem_skip_whitespace [of "advance s"] lex_rem_advance [OF assms(1)] by simp
qed

lemma lex_rem_integer_loop: "lex_rem (snd (integer_loop s r)) \<le> lex_rem s"
proof (induction s r rule: integer_loop.induct)
  case (1 s r)
  show ?case
  proof (cases "current_char s")
    case None
    then show ?thesis by (simp add: integer_loop.simps [of s])
  next
    case (Some c)
    show ?thesis
    proof (cases "isdigit c")
      case True
      with Some "1" have "lex_rem (snd (integer_loop (advance s) (r @ [c]))) \<le> lex_rem (advance s)"
        by simp
      with lex_rem_advance [OF Some] Some True show ?thesis
        by (simp add: integer_loop.simps [of s])
    next
      case False
      with Some show ?thesis by (simp add: integer_loop.simps [of s])
    qed
  qed
qed

lemma lex_rem_integer_loop_less:
  assumes "current_char s = Some c" "isdigit c"
  shows "lex_rem (snd (integer_loop s r)) < lex_rem s"
proof -
  have "integer_loop s r = integer_loop (advance s) (r @ [c])"
    using assms by (simp add: integer_loop.simps [of s])
  then show ?thesis
    using lex_rem_integer_loop [of "advance s" "r @ [c]"] lex_rem_advance [OF assms(1)] by simp
qed

lemma lex_rem_integer_less:
  assumes "current_char s = Some c" "isdigit c"
  shows "lex_rem (snd (integer s)) < lex_rem s"
  using lex_rem_integer_loop_less [OF assms, of "[]"]
  by (cases "integer_loop s []") (simp add: integer_def)

lemma lex_rem_token:
  "get_next_token s = (Inr tok, s') \<Longrightarrow>
   lex_rem s' \<le> lex_rem s \<and> (ttype tok \<noteq> EOF \<longrightarrow> lex_rem s' < lex_rem s)"
proof (induction s rule: get_next_token.induct)
  case (1 s)
  show ?case
  proof (cases "current_char s")
    case None
    with "1.prems" show ?thesis by (auto simp: get_next_token.simps [of s])
  next
    case (Some c)
    show ?thesis
    proof (cases "isspace c")
      case True
      with Some "1.prems" have "get_next_token (skip_whitespace s) = (Inr tok, s')"
        by (simp add: get_next_token.simps [of s])
      with "1.IH" Some True
      have "lex_rem s' \<le> lex_rem (skip_whitespace s) \<and>
          (ttype tok \<noteq> EOF \<longrightarrow> lex_rem s' < lex_rem (skip_whitespace s))"
        by simp
      with lex_rem_skip_whitespace [of s] show ?thesis by auto
    next
      case False
      show ?thesis
      proof (cases "isdigit c")
        case True
        from lex_rem_integer_less [OF Some True] Some False True "1.prems" show ?thesis
          by (cases "integer s") (auto simp: get_next_token.simps [of s] split: sum.splits)
      next
        case nd: False
        from lex_rem_advance [OF Some] Some False nd "1.prems" show ?thesis
          by (auto simp: get_next_token.simps [of s] split: if_splits)
      qed
    qed
  qed
qed

lemma parse_rem_eat:
  assumes "eat tt p = Inr p'" "tt \<noteq> EOF"
  shows "parse_rem p' < parse_rem p"
proof -
  from assms(1) have t: "ttype (current_token p) = tt"
    by (auto simp: eat_def split: if_splits)
  with assms(1) obtain tok lx where g: "get_next_token (lexer p) = (Inr tok, lx)"
    and p': "p' = \<lparr>lexer = lx, current_token = tok\<rparr>"
    by (auto simp: eat_def split: prod.splits sum.splits)
  from lex_rem_token [OF g] t assms(2) p' show ?thesis
    by (auto simp: parse_rem_def)
qed

lemma finishes_raise: "finishes (Some (Inl e)) p"
  by (simp add: finishes_def)

lemma finishes_return: "parse_rem p' \<le> parse_rem p \<Longrightarrow> finishes (Some (Inr (node, p'))) p"
  by (simp add: finishes_def)

lemma finishes_cases:
  assumes "finishes r p"
  obtains (raise) e where "r = Some (Inl e)"
  | (return) node p' where "r = Some (Inr (node, p'))" "parse_rem p' \<le> parse_rem p"
  using assms by (auto simp: finishes_def split: option.splits sum.splits)

lemma enough_depth:
  "(\<forall>p. 3 * parse_rem p + 1 \<le> n \<longrightarrow> finishes (factor n p) p) \<and>
   (\<forall>node p. 3 * parse_rem p + 1 \<le> n \<longrightarrow> finishes (term_loop n node p) p) \<and>
   (\<forall>p. 3 * parse_rem p + 2 \<le> n \<longrightarrow> finishes (term_py n p) p) \<and>
   (\<forall>node p. 3 * parse_rem p + 2 \<le> n \<longrightarrow> finishes (expr_loop n node p) p) \<and>
   (\<forall>p. 3 * parse_rem p + 3 \<le> n \<longrightarrow> finishes (expr n p) p)"
proof (induction n)
  case 0
  show ?case by simp
next
  case (Suc n)
  then have IHf: "\<And>p. 3 * parse_rem p + 1 \<le> n \<Longrightarrow> finishes (factor n p) p"
    and IHtl: "\<And>node p. 3 * parse_rem p + 1 \<le> n \<Longrightarrow> finishes (term_loop n node p) p"
    and IHt: "\<And>p. 3 * parse_rem p + 2 \<le> n \<Longrightarrow> finishes (term_py n p) p"
    and IHel: "\<And>node p. 3 * parse_rem p + 2 \<le> n \<Longrightarrow> finishes (expr_loop n node p) p"
    and IHe: "\<And>p. 3 * parse_rem p + 3 \<le> n \<Longrightarrow> finishes (expr n p) p"
    by blast+
  have f: "finishes (factor (Suc n) p) p" if b: "3 * parse_rem p + 1 \<le> Suc n" for p
  proof -
    consider (int) "ttype (current_token p) = INTEGER"
      | (par) "ttype (current_token p) = LPAREN"
      | (other) "ttype (current_token p) \<noteq> INTEGER" "ttype (current_token p) \<noteq> LPAREN"
      by blast
    then show ?thesis
    proof cases
      case int
      show ?thesis
      proof (cases "eat INTEGER p")
        case (Inl e)
        with int show ?thesis by (simp add: finishes_raise)
      next
        case (Inr p1)
        with parse_rem_eat [OF Inr] int show ?thesis by (simp add: finishes_return)
      qed
    next
      case par
      show ?thesis
      proof (cases "eat LPAREN p")
        case (Inl e)
        with par show ?thesis by (simp add: finishes_raise)
      next
        case (Inr p1)
        from parse_rem_eat [OF Inr] have l1: "parse_rem p1 < parse_rem p" by simp
        with b have "3 * parse_rem p1 + 3 \<le> n" by simp
        then have "finishes (expr n p1) p1" by (rule IHe)
        then show ?thesis
        proof (cases rule: finishes_cases)
          case (raise e)
          with par Inr show ?thesis by (simp add: finishes_raise)
        next
          case (return node p2)
          show ?thesis
          proof (cases "eat RPAREN p2")
            case (Inl e)
            with par Inr return show ?thesis by (simp add: finishes_raise)
          next
            case p3: (Inr p3)
            from parse_rem_eat [OF p3] return(2) l1 have "parse_rem p3 \<le> parse_rem p" by simp
            with par Inr return p3 show ?thesis by (simp add: finishes_return)
          qed
        qed
      qed
    next
      case other
      then show ?thesis by (simp add: finishes_return)
    qed
  qed
  have tl: "finishes (term_loop (Suc n) node p) p" if b: "3 * parse_rem p + 1 \<le> Suc n" for node p
  proof (cases "ttype (current_token p) \<in> {MUL, DIV}")
    case False
    then show ?thesis by (simp add: finishes_return)
  next
    case True
    define r where "r = (if ttype (current_token p) = MUL then eat MUL p else eat DIV p)"
    show ?thesis
    proof (cases r)
      case (Inl e)
      with True show ?thesis by (auto simp: r_def finishes_raise)
    next
      case (Inr p1)
      then have l1: "parse_rem p1 < parse_rem p"
        by (auto simp: r_def dest: parse_rem_eat split: if_splits)
      with b have "3 * parse_rem p1 + 1 \<le> n" by simp
      then have "finishes (factor n p1) p1" by (rule IHf)
      then show ?thesis
      proof (cases rule: finishes_cases)
        case (raise e)
        with True Inr show ?thesis by (auto simp: r_def finishes_raise)
      next
        case (return right p2)
        from return(2) l1 b have "3 * parse_rem p2 + 1 \<le> n" by simp
        then have "finishes (term_loop n (BinOp node (current_token p) right) p2) p2"
          by (rule IHtl)
        then have "finishes (term_loop n (BinOp node (current_token p) right) p2) p"
          using return(2) l1 by (auto simp: finishes_def split: option.splits sum.splits)
        with True Inr return(1) show ?thesis by (auto simp: r_def)
      qed
    qed
  qed
  have t: "finishes (term_py (Suc n) p) p" if b: "3 * parse_rem p + 2 \<le> Suc n" for p
  proof -
    from b have "3 * parse_rem p + 1 \<le> n" by simp
    then have "finishes (factor n p) p" by (rule IHf)
    then show ?thesis
    proof (cases rule: finishes_cases)
      case (raise e)
      then show ?thesis by (simp add: finishes_raise)
    next
      case (return node p1)
      from return(2) b have "3 * parse_rem p1 + 1 \<le> n" by simp
      then have "finishes (term_loop n node p1) p1" by (rule IHtl)
      then have "finishes (term_loop n node p1) p"
        using return(2) by (auto simp: finishes_def split: option.splits sum.splits)
      with return(1) show ?thesis by simp
    qed
  qed
  have el: "finishes (expr_loop (Suc n) node p) p" if b: "3 * parse_rem p + 2 \<le> Suc n" for node p
  proof (cases "ttype (current_token p) \<in> {PLUS, MINUS}")
    case False
    then show ?thesis by (simp add: finishes_return)
  next
    case True
    define r where "r = (if ttype (current_token p) = PLUS then eat PLUS p else eat MINUS p)"
    show ?thesis
    proof (cases r)
      case (Inl e)
      with True show ?thesis by (auto simp: r_def finishes_raise)
    next
      case (Inr p1)
      then have l1: "parse_rem p1 < parse_rem p"
        by (auto simp: r_def dest: parse_rem_eat split: if_splits)
      with b have "3 * parse_rem p1 + 2 \<le> n" by simp
      then have "finishes (term_py n p1) p1" by (rule IHt)
      then show ?thesis
      proof (cases rule: finishes_cases)
        case (raise e)
        with True Inr show ?thesis by (auto simp: r_def finishes_raise)
      next
        case (return right p2)
        from return(2) l1 b have "3 * parse_rem p2 + 2 \<le> n" by simp
        then have "finishes (expr_loop n (BinOp node (current_token p) right) p2) p2"
          by (rule IHel)
        then have "finishes (expr_loop n (BinOp node (current_token p) right) p2) p"
          using return(2) l1 by (auto simp: finishes_def split: option.splits sum.splits)
        with True Inr return(1) show ?thesis by (auto simp: r_def)
      qed
    qed
  qed
  have e: "finishes (expr (Suc n) p) p" if b: "3 * parse_rem p + 3 \<le> Suc n" for p
  proof -
    from b have "3 * parse_rem p + 2 \<le> n" by simp
    then have "finishes (term_py n p) p" by (rule IHt)
    then show ?thesis
    proof (cases rule: finishes_cases)
      case (raise e)
      then show ?thesis by (simp add: finishes_raise)
    next
      case (return node p1)
      from return(2) b have "3 * parse_rem p1 + 2 \<le> n" by simp
      then have "finishes (expr_loop n node p1) p1" by (rule IHel)
      then have "finishes (expr_loop n node p1) p"
        using return(2) by (auto simp: finishes_def split: option.splits sum.splits)
      with return(1) show ?thesis by simp
    qed
  qed
  from f tl t el e show ?case by blast
qed

lemma expr_finishes: "finishes (expr (depth_bound p) p) p"
  using enough_depth [of "depth_bound p"] by (simp add: depth_bound_def)

lemma parse_returns: "\<exists>r. parse p = Some r"
  using expr_finishes [of p]
  by (auto simp: parse_def elim!: finishes_cases)

text \<open>A call that came back under one bound comes back with the same result under a larger one.\<close>

lemma more_depth:
  "(\<forall>p. factor n p \<noteq> None \<longrightarrow> factor (n + k) p = factor n p) \<and>
   (\<forall>node p. term_loop n node p \<noteq> None \<longrightarrow> term_loop (n + k) node p = term_loop n node p) \<and>
   (\<forall>p. term_py n p \<noteq> None \<longrightarrow> term_py (n + k) p = term_py n p) \<and>
   (\<forall>node p. expr_loop n node p \<noteq> None \<longrightarrow> expr_loop (n + k) node p = expr_loop n node p) \<and>
   (\<forall>p. expr n p \<noteq> None \<longrightarrow> expr (n + k) p = expr n p)"
proof (induction n)
  case 0
  show ?case by simp
next
  case (Suc n)
  then have IHf: "\<And>p. factor n p \<noteq> None \<Longrightarrow> factor (n + k) p = factor n p"
    and IHtl: "\<And>node p. term_loop n node p \<noteq> None \<Longrightarrow>
        term_loop (n + k) node p = term_loop n node p"
    and IHt: "\<And>p. term_py n p \<noteq> None \<Longrightarrow> term_py (n + k) p = term_py n p"
    and IHel: "\<And>node p. expr_loop n node p \<noteq> None \<Longrightarrow>
        expr_loop (n + k) node p = expr_loop n node p"
    and IHe: "\<And>p. expr n p \<noteq> None \<Longrightarrow> expr (n + k) p = expr n p"
    by blast+
  have f: "factor (Suc n + k) p = factor (Suc n) p" if d: "factor (Suc n) p \<noteq> None" for p
  proof (cases "ttype (current_token p) \<noteq> INTEGER \<and> ttype (current_token p) = LPAREN")
    case False
    then show ?thesis by (auto simp: Let_def)
  next
    case True
    show ?thesis
    proof (cases "eat LPAREN p")
      case (Inl e)
      with True show ?thesis by simp
    next
      case (Inr p1)
      with True d have "expr n p1 \<noteq> None" by (auto split: option.splits)
      then have "expr (n + k) p1 = expr n p1" by (rule IHe)
      with True Inr show ?thesis by simp
    qed
  qed
  have tl: "term_loop (Suc n + k) node p = term_loop (Suc n) node p"
    if d: "term_loop (Suc n) node p \<noteq> None" for node p
  proof (cases "ttype (current_token p) \<in> {MUL, DIV}")
    case False
    then show ?thesis by simp
  next
    case True
    define r where "r = (if ttype (current_token p) = MUL then eat MUL p else eat DIV p)"
    show ?thesis
    proof (cases r)
      case (Inl e)
      with True show ?thesis by (auto simp: r_def)
    next
      case (Inr p1)
      with True d have nf: "factor n p1 \<noteq> None"
        by (auto simp: r_def split: option.splits if_splits)
      then have ef: "factor (n + k) p1 = factor n p1" by (rule IHf)
      from nf obtain a where a: "factor n p1 = Some a" by blast
      show ?thesis
      proof (cases a)
        case (Inl e)
        with True Inr a ef show ?thesis by (auto simp: r_def)
      next
        case right: (Inr b)
        obtain right p2 where b: "b = (right, p2)" by (cases b)
        with True Inr a right d
        have "term_loop n (BinOp node (current_token p) right) p2 \<noteq> None"
          by (auto simp: r_def split: if_splits)
        then have "term_loop (n + k) (BinOp node (current_token p) right) p2
            = term_loop n (BinOp node (current_token p) right) p2"
          by (rule IHtl)
        with True Inr a right b ef show ?thesis by (auto simp: r_def)
      qed
    qed
  qed
  have t: "term_py (Suc n + k) p = term_py (Suc n) p" if d: "term_py (Suc n) p \<noteq> None" for p
  proof -
    from d have nf: "factor n p \<noteq> None" by (auto split: option.splits)
    then have ef: "factor (n + k) p = factor n p" by (rule IHf)
    from nf obtain a where a: "factor n p = Some a" by blast
    show ?thesis
    proof (cases a)
      case (Inl e)
      with a ef show ?thesis by simp
    next
      case (Inr b)
      obtain node p1 where b: "b = (node, p1)" by (cases b)
      with a Inr d have "term_loop n node p1 \<noteq> None" by simp
      then have "term_loop (n + k) node p1 = term_loop n node p1" by (rule IHtl)
      with a Inr b ef show ?thesis by simp
    qed
  qed
  have el: "expr_loop (Suc n + k) node p = expr_loop (Suc n) node p"
    if d: "expr_loop (Suc n) node p \<noteq> None" for node p
  proof (cases "ttype (current_token p) \<in> {PLUS, MINUS}")
    case False
    then show ?thesis by simp
  next
    case True
    define r where "r = (if ttype (current_token p) = PLUS then eat PLUS p else eat MINUS p)"
    show ?thesis
    proof (cases r)
      case (Inl e)
      with True show ?thesis by (auto simp: r_def)
    next
      case (Inr p1)
      with True d have nf: "term_py n p1 \<noteq> None"
        by (auto simp: r_def split: option.splits if_splits)
      then have ef: "term_py (n + k) p1 = term_py n p1" by (rule IHt)
      from nf obtain a where a: "term_py n p1 = Some a" by blast
      show ?thesis
      proof (cases a)
        case (Inl e)
        with True Inr a ef show ?thesis by (auto simp: r_def)
      next
        case right: (Inr b)
        obtain right p2 where b: "b = (right, p2)" by (cases b)
        with True Inr a right d
        have "expr_loop n (BinOp node (current_token p) right) p2 \<noteq> None"
          by (auto simp: r_def split: if_splits)
        then have "expr_loop (n + k) (BinOp node (current_token p) right) p2
            = expr_loop n (BinOp node (current_token p) right) p2"
          by (rule IHel)
        with True Inr a right b ef show ?thesis by (auto simp: r_def)
      qed
    qed
  qed
  have e: "expr (Suc n + k) p = expr (Suc n) p" if d: "expr (Suc n) p \<noteq> None" for p
  proof -
    from d have nf: "term_py n p \<noteq> None" by (auto split: option.splits)
    then have ef: "term_py (n + k) p = term_py n p" by (rule IHt)
    from nf obtain a where a: "term_py n p = Some a" by blast
    show ?thesis
    proof (cases a)
      case (Inl e)
      with a ef show ?thesis by simp
    next
      case (Inr b)
      obtain node p1 where b: "b = (node, p1)" by (cases b)
      with a Inr d have "expr_loop n node p1 \<noteq> None" by simp
      then have "expr_loop (n + k) node p1 = expr_loop n node p1" by (rule IHel)
      with a Inr b ef show ?thesis by simp
    qed
  qed
  from f tl t el e show ?case by blast
qed

lemma expr_more_depth: "expr n p = Some r \<Longrightarrow> n \<le> m \<Longrightarrow> expr m p = Some r"
  using more_depth [of n "m - n"] by simp

text \<open>
  So \<^verbatim>\<open>parse\<close> is what \<^verbatim>\<open>expr\<close> returns under any bound that it does not reach.
\<close>

lemma parse_any_depth:
  assumes "expr n p = Some r"
  shows "parse p =
    (case r of
       Inl e \<Rightarrow> Some (Inl e)
     | Inr (node, p') \<Rightarrow>
         if ttype (current_token p') \<noteq> EOF then Some (Inl ParsingError) else Some (Inr node))"
proof -
  from expr_finishes [of p] obtain r' where r': "expr (depth_bound p) p = Some r'"
    by (auto elim: finishes_cases)
  have "r' = r"
  proof (cases "n \<le> depth_bound p")
    case True
    from expr_more_depth [OF assms True] r' show ?thesis by simp
  next
    case False
    then have "depth_bound p \<le> n" by simp
    from expr_more_depth [OF r' this] assms show ?thesis by simp
  qed
  with r' show ?thesis by (simp add: parse_def split: sum.splits prod.splits)
qed

section \<open>The lexer on a run of characters\<close>

lemma Lexer_at: "Lexer t = lexer_at t 0"
  by (cases t) (simp_all add: Lexer_def lexer_at_def)

lemma advance_at: "advance (lexer_at t i) = lexer_at t (Suc i)"
  by (simp add: advance_def lexer_at_def)

lemma current_char_at_end: "current_char (lexer_at t (length t)) = None"
  by (simp add: lexer_at_def)

lemma current_char_at_append:
  "current_char (lexer_at (pre @ rest) (length pre)) = (case rest of [] \<Rightarrow> None | c # cs \<Rightarrow> Some c)"
  by (cases rest) (simp_all add: lexer_at_def)

lemma skip_whitespace_at_end: "current_char s = None \<Longrightarrow> skip_whitespace s = s"
  by (simp add: skip_whitespace.simps [of s])



lemma skip_whitespace_run:
  assumes "list_all isspace ws" "rest = [] \<or> \<not> isspace (hd rest)"
  shows "skip_whitespace (lexer_at (pre @ ws @ rest) (length pre))
    = lexer_at (pre @ ws @ rest) (length pre + length ws)"
  using assms
proof (induction ws arbitrary: pre)
  case Nil
  then show ?case
    using current_char_at_append [of pre rest]
    by (cases rest) (simp_all add: skip_whitespace_at_end skip_whitespace_no_space)
next
  case (Cons w ws)
  have "skip_whitespace (lexer_at (pre @ (w # ws) @ rest) (length pre))
      = skip_whitespace (advance (lexer_at (pre @ (w # ws) @ rest) (length pre)))"
    using Cons.prems current_char_at_append [of pre "(w # ws) @ rest"]
    by (simp add: skip_whitespace.simps [of "lexer_at (pre @ w # ws @ rest) (length pre)"])
  also have "\<dots> = skip_whitespace (lexer_at ((pre @ [w]) @ ws @ rest) (length (pre @ [w])))"
    by (simp add: advance_at)
  also have "\<dots> = lexer_at ((pre @ [w]) @ ws @ rest) (length (pre @ [w]) + length ws)"
    using Cons.prems by (intro Cons.IH) simp_all
  finally show ?case by simp
qed


section \<open>Blank input\<close>

lemma get_next_token_blank:
  assumes "list_all isspace s"
  shows "get_next_token (Lexer s) = (Inr (Token EOF NoneP), lexer_at s (length s))"
proof -
  have "skip_whitespace (lexer_at ([] @ s @ []) (length ([] :: string)))
      = lexer_at ([] @ s @ []) (length ([] :: string) + length s)"
    using assms by (intro skip_whitespace_run) simp_all
  then have "skip_whitespace (Lexer s) = lexer_at s (length s)"
    by (simp add: Lexer_at)
  with get_next_token_skip [of "Lexer s"] show ?thesis
    by (simp add: get_next_token_at_end current_char_at_end)
qed

text \<open>
  C10. On the empty text and on a text of whitespace only, the first token is \<open>EOF\<close>;
  \<^verbatim>\<open>factor\<close> returns \<^verbatim>\<open>None\<close> without raising and without consuming the token;
  \<^verbatim>\<open>parse\<close> returns that \<^verbatim>\<open>None\<close>, its check of \<open>EOF\<close> passing; and the
  evaluation raises the generic exception of \<^verbatim>\<open>generic_visit\<close>, which is none of
  \<^verbatim>\<open>LexicalError\<close>, \<^verbatim>\<open>ParsingError\<close> and \<^verbatim>\<open>ZeroDivisionError\<close>.
\<close>

theorem blank_text_reaches_generic_visit:
  assumes "list_all isspace s"
  shows "get_next_token (Lexer s) = (Inr (Token EOF NoneP), lexer_at s (length s)) \<and>
    Parser (Lexer s) = Inr \<lparr>lexer = lexer_at s (length s), current_token = Token EOF NoneP\<rparr> \<and>
    factor (Suc n) \<lparr>lexer = lexer_at s (length s), current_token = Token EOF NoneP\<rparr>
      = Some (Inr (NoneNode, \<lparr>lexer = lexer_at s (length s), current_token = Token EOF NoneP\<rparr>)) \<and>
    parse_text s = Some (Inr NoneNode) \<and>
    evaluate ops s = Some (Inl (GenericException ''NoneType'')) \<and>
    evaluate ops s \<noteq> Some (Inl ParsingError) \<and>
    evaluate ops s \<noteq> Some (Inl ZeroDivisionError) \<and>
    (\<forall>c. evaluate ops s \<noteq> Some (Inl (LexicalError c)))"
proof -
  let ?p = "\<lparr>lexer = lexer_at s (length s), current_token = Token EOF NoneP\<rparr>"
  have tok: "get_next_token (Lexer s) = (Inr (Token EOF NoneP), lexer_at s (length s))"
    using assms by (rule get_next_token_blank)
  then have par: "Parser (Lexer s) = Inr ?p"
    by (simp add: Parser_def)
  have fac: "factor (Suc n) ?p = Some (Inr (NoneNode, ?p))"
    by simp
  have "expr (Suc (Suc (Suc 0))) ?p = Some (Inr (NoneNode, ?p))"
    by simp
  from parse_any_depth [OF this] have "parse ?p = Some (Inr NoneNode)"
    by simp
  with par have tree: "parse_text s = Some (Inr NoneNode)"
    and ev: "evaluate ops s = Some (Inl (GenericException ''NoneType''))"
    by (simp_all add: parse_text_def evaluate_def interpret_py_def generic_visit_def)
  from tok par fac tree ev show ?thesis by simp
qed

theorem blank_text_reaches_generic_visit_witness:
  "list_all isspace '' '' \<and>
   parse_text '' '' = Some (Inr NoneNode) \<and>
   evaluate exact_ops '' '' = Some (Inl (GenericException ''NoneType'')) \<and>
   list_all isspace '''' \<and>
   parse_text '''' = Some (Inr NoneNode) \<and>
   evaluate exact_ops '''' = Some (Inl (GenericException ''NoneType''))"
proof -
  have h1: "list_all isspace '' ''" by (simp add: isspace_def)
  have h2: "list_all isspace ''''" by simp
  from blank_text_reaches_generic_visit [OF h1, where ops = exact_ops]
    blank_text_reaches_generic_visit [OF h2, where ops = exact_ops] h1 h2
  show ?thesis by blast
qed

section \<open>The end of the expression\<close>

text \<open>
  C6. \<^verbatim>\<open>parse\<close> always comes back. When \<^verbatim>\<open>expr\<close> has returned a tree,
  \<^verbatim>\<open>parse\<close> raises \<^verbatim>\<open>ParsingError\<close> unless the current token is \<open>EOF\<close>, and
  returns the tree if it is; what \<^verbatim>\<open>expr\<close> raises, \<^verbatim>\<open>parse\<close> raises. So
  \<open>2 3\<close> and \<open>2+2)\<close>, where a token follows a complete expression, and \<open>(2+3\<close>, where
  \<^verbatim>\<open>eat\<close> finds \<open>EOF\<close> for the closing parenthesis, end in \<^verbatim>\<open>ParsingError\<close>.
\<close>

theorem parse_requires_eof:
  "(\<exists>r. parse p = Some r) \<and>
   (expr n p = Some (Inr (node, p')) \<longrightarrow>
      parse p = Some (if ttype (current_token p') \<noteq> EOF then Inl ParsingError else Inr node)) \<and>
   (expr n p = Some (Inl e) \<longrightarrow> parse p = Some (Inl e)) \<and>
   evaluate ops ''(2+3'' = Some (Inl ParsingError) \<and>
   evaluate ops ''2 3'' = Some (Inl ParsingError) \<and>
   evaluate ops ''2+2)'' = Some (Inl ParsingError)"
proof (intro conjI impI)
  show "\<exists>r. parse p = Some r" by (rule parse_returns)
next
  assume "expr n p = Some (Inr (node, p'))"
  from parse_any_depth [OF this]
  show "parse p = Some (if ttype (current_token p') \<noteq> EOF then Inl ParsingError else Inr node)"
    by simp
next
  assume "expr n p = Some (Inl e)"
  from parse_any_depth [OF this] show "parse p = Some (Inl e)" by simp
next
  show "evaluate ops ''(2+3'' = Some (Inl ParsingError)" by (simp add: run_simps)
next
  show "evaluate ops ''2 3'' = Some (Inl ParsingError)" by (simp add: run_simps)
next
  show "evaluate ops ''2+2)'' = Some (Inl ParsingError)" by (simp add: run_simps)
qed

text \<open>
  The instances: after \<open>2\<close> in \<open>2 3\<close> the current token is the integer 3; after \<open>2\<close> in
  \<open>2\<close> it is \<open>EOF\<close>; in \<open>(2\<close> \<^verbatim>\<open>expr\<close> raises.
\<close>

theorem parse_requires_eof_witness:
  "expr 3 \<lparr>lexer = lexer_at ''2 3'' 1, current_token = Token INTEGER (IntP 2)\<rparr>
     = Some (Inr (Num (Token INTEGER (IntP 2)),
         \<lparr>lexer = lexer_at ''2 3'' 3, current_token = Token INTEGER (IntP 3)\<rparr>)) \<and>
   parse \<lparr>lexer = lexer_at ''2 3'' 1, current_token = Token INTEGER (IntP 2)\<rparr>
     = Some (Inl ParsingError) \<and>
   expr 3 \<lparr>lexer = lexer_at ''2'' 1, current_token = Token INTEGER (IntP 2)\<rparr>
     = Some (Inr (Num (Token INTEGER (IntP 2)),
         \<lparr>lexer = lexer_at ''2'' 1, current_token = Token EOF NoneP\<rparr>)) \<and>
   parse \<lparr>lexer = lexer_at ''2'' 1, current_token = Token INTEGER (IntP 2)\<rparr>
     = Some (Inr (Num (Token INTEGER (IntP 2)))) \<and>
   expr 6 \<lparr>lexer = lexer_at ''(2'' 1, current_token = Token LPAREN (StrP ''('')\<rparr>
     = Some (Inl ParsingError) \<and>
   parse \<lparr>lexer = lexer_at ''(2'' 1, current_token = Token LPAREN (StrP ''('')\<rparr>
     = Some (Inl ParsingError)"
proof -
  let ?a = "\<lparr>lexer = lexer_at ''2 3'' 1, current_token = Token INTEGER (IntP 2)\<rparr>"
  let ?a' = "\<lparr>lexer = lexer_at ''2 3'' 3, current_token = Token INTEGER (IntP 3)\<rparr>"
  let ?b = "\<lparr>lexer = lexer_at ''2'' 1, current_token = Token INTEGER (IntP 2)\<rparr>"
  let ?b' = "\<lparr>lexer = lexer_at ''2'' 1, current_token = Token EOF NoneP\<rparr>"
  let ?c = "\<lparr>lexer = lexer_at ''(2'' 1, current_token = Token LPAREN (StrP ''('')\<rparr>"
  let ?two = "Num (Token INTEGER (IntP 2))"
  have ha: "expr 3 ?a = Some (Inr (?two, ?a'))"
    by (simp add: run_simps lexer_at_def)
  have hb: "expr 3 ?b = Some (Inr (?two, ?b'))"
    by (simp add: run_simps lexer_at_def)
  have hc: "expr 6 ?c = Some (Inl ParsingError)"
    by (simp add: run_simps lexer_at_def)
  from parse_requires_eof [where ops = exact_ops and p = ?a and n = 3 and node = ?two and p' = ?a'] ha
  have ca: "parse ?a = Some (Inl ParsingError)" by simp
  from parse_requires_eof [where ops = exact_ops and p = ?b and n = 3 and node = ?two and p' = ?b'] hb
  have cb: "parse ?b = Some (Inr ?two)" by simp
  from parse_requires_eof [where ops = exact_ops and p = ?c and n = 6 and e = ParsingError] hc
  have cc: "parse ?c = Some (Inl ParsingError)" by blast
  from ha hb hc ca cb cc show ?thesis by simp
qed

section \<open>One operator between two literals\<close>



































end
